theory Spec2Isabelle
  imports Main
begin

section \<open>JavaScript values\<close>

text \<open>
  The values that can reach an AliasMap: the primitives, arrays, plain objects (a list of
  own properties) and functions (carrying their \<open>name\<close> property). Numbers are kept
  abstract as integers: the container never computes with them. Map keys are compared by
  SameValueZero, which on strings is equality of the strings. An object is the value of
  its properties: the container stores and returns references and never looks inside a
  stored value, so that returning the object that was stored is returning an equal value.
\<close>

datatype jsval =
    JUndefined
  | JNull
  | JBool bool
  | JNum int
  | JStr string
  | JArr "jsval list"
  | JObj "(string \<times> jsval) list"
  | JFun string

text \<open>The \<open>typeof\<close> operator.\<close>

fun typeof :: "jsval \<Rightarrow> string" where
  "typeof JUndefined = ''undefined''"
| "typeof JNull = ''object''"
| "typeof (JBool b) = ''boolean''"
| "typeof (JNum n) = ''number''"
| "typeof (JStr s) = ''string''"
| "typeof (JArr xs) = ''object''"
| "typeof (JObj fs) = ''object''"
| "typeof (JFun nm) = ''function''"

text \<open>
  Property read \<open>v.p\<close>. Only \<open>name\<close> and \<open>aliasArr\<close> are ever read, and only after
  \<open>precon.defined\<close> has accepted \<open>v\<close>; a property that is absent reads as undefined.
\<close>

fun get_prop :: "jsval \<Rightarrow> string \<Rightarrow> jsval" where
  "get_prop (JObj fs) p = (case map_of fs p of None \<Rightarrow> JUndefined | Some v \<Rightarrow> v)"
| "get_prop (JFun nm) p = (if p = ''name'' then JStr nm else JUndefined)"
| "get_prop v p = JUndefined"

text \<open>
  Parameter binding of a call: a parameter with no argument is undefined.
\<close>

definition js_arg :: "jsval list \<Rightarrow> nat \<Rightarrow> jsval" where
  "js_arg args i = (if i < length args then args ! i else JUndefined)"

section \<open>Argument checks\<close>

datatype error = InvalidArgument

text \<open>
  The class checks its arguments with the package \<open>@makipool/mint-precon\<close>, which it
  requires and which is not part of the sources. A check that fails throws; one that passes
  yields the checked content here.
\<close>

text \<open>
  Modelled from the spec: \<open>precon.defined\<close>, missing from the sources. The spec: a key
  must be a defined object; a violation raises an invalid-argument error.
\<close>

fun precon_defined :: "jsval \<Rightarrow> error + unit" where
  "precon_defined JUndefined = Inl InvalidArgument"
| "precon_defined JNull = Inl InvalidArgument"
| "precon_defined v = Inr ()"

text \<open>
  Modelled from the spec: \<open>precon.string\<close>, missing from the sources. The spec: a name
  argument, and the \<open>name\<close> field of a key, must be of string type; a violation raises an
  invalid-argument error.
\<close>

fun precon_string :: "jsval \<Rightarrow> error + string" where
  "precon_string (JStr s) = Inr s"
| "precon_string v = Inl InvalidArgument"

text \<open>
  Modelled from the spec: \<open>precon.arrayOf(v, 'string', ...)\<close>, missing from the sources.
  The spec: the \<open>aliasArr\<close> field of a key must be an array of strings; a violation raises
  an invalid-argument error.
\<close>

fun strings_of :: "jsval list \<Rightarrow> error + string list" where
  "strings_of [] = Inr []"
| "strings_of (JStr s # vs) =
     (case strings_of vs of Inl e \<Rightarrow> Inl e | Inr ss \<Rightarrow> Inr (s # ss))"
| "strings_of (v # vs) = Inl InvalidArgument"

fun precon_arrayOf_string :: "jsval \<Rightarrow> error + string list" where
  "precon_arrayOf_string (JArr vs) = strings_of vs"
| "precon_arrayOf_string v = Inl InvalidArgument"

text \<open>
  Modelled from the spec: \<open>precon.funct\<close>, missing from the sources. The spec: an
  iterator function must be invocable; a violation raises an invalid-argument error.
\<close>

definition precon_funct :: "jsval \<Rightarrow> error + unit" where
  "precon_funct v = (if typeof v = ''function'' then Inr () else Inl InvalidArgument)"

section \<open>The built-in Map and Set\<close>

text \<open>
  A JavaScript \<open>Map\<close> with string keys, used only through \<open>has\<close>, \<open>get\<close>, \<open>set\<close>,
  \<open>delete\<close> and \<open>clear\<close>: a partial function. \<open>delete\<close> returns whether the key was
  present.
\<close>

type_synonym jsmap = "string \<rightharpoonup> jsval"

definition Map_has :: "jsmap \<Rightarrow> string \<Rightarrow> bool" where
  "Map_has m k = (m k \<noteq> None)"

definition Map_get :: "jsmap \<Rightarrow> string \<Rightarrow> jsval" where
  "Map_get m k = (case m k of None \<Rightarrow> JUndefined | Some v \<Rightarrow> v)"

definition Map_set :: "string \<Rightarrow> jsval \<Rightarrow> jsmap \<Rightarrow> jsmap" where
  "Map_set k v m = m(k \<mapsto> v)"

definition Map_delete :: "string \<Rightarrow> jsmap \<Rightarrow> bool \<times> jsmap" where
  "Map_delete k m = (m k \<noteq> None, m(k := None))"

text \<open>
  A JavaScript \<open>Set\<close> of strings iterates in insertion order: the list of its elements,
  without repetition. \<open>add\<close> of a present element changes nothing; a new element goes last.
\<close>

definition Set_add :: "string \<Rightarrow> string list \<Rightarrow> string list" where
  "Set_add x xs = (if x \<in> set xs then xs else xs @ [x])"

definition Set_delete :: "string \<Rightarrow> string list \<Rightarrow> string list" where
  "Set_delete x xs = removeAll x xs"

text \<open>
  An iterator over a Set is the list of the elements it has not produced yet; \<open>next\<close>
  produces the first of them, or reports that it is done.
\<close>

datatype 'a iter_result = Done | Yield 'a

fun Set_iter_next :: "string list \<Rightarrow> string iter_result \<times> string list" where
  "Set_iter_next [] = (Done, [])"
| "Set_iter_next (x # xs) = (Yield x, xs)"

section \<open>The class AliasMap\<close>

record AliasMap =
  priv_map :: jsmap
  priv_nameSet :: "string list"

text \<open>
  A call of a method takes the container and returns what it returns or throws, with the container
  after the call.
\<close>

type_synonym 'a call = "AliasMap \<Rightarrow> (error + 'a) \<times> AliasMap"

definition constructor :: AliasMap where
  "constructor = \<lparr>priv_map = Map.empty, priv_nameSet = []\<rparr>"

definition AliasMap_size :: "AliasMap \<Rightarrow> nat" where
  "AliasMap_size s = length (priv_nameSet s)"

definition AliasMap_has :: "jsval \<Rightarrow> bool call" where
  "AliasMap_has nameOrAlias s =
     (case precon_string nameOrAlias of
        Inl e \<Rightarrow> (Inl e, s)
      | Inr n \<Rightarrow> (Inr (Map_has (priv_map s) n), s))"

definition AliasMap_get :: "jsval \<Rightarrow> jsval call" where
  "AliasMap_get nameOrAlias s =
     (case precon_string nameOrAlias of
        Inl e \<Rightarrow> (Inl e, s)
      | Inr n \<Rightarrow> (Inr (Map_get (priv_map s) n), s))"

text \<open>\<open>set\<close> returns the container itself, which is the second component.\<close>

definition AliasMap_set :: "jsval \<Rightarrow> jsval \<Rightarrow> unit call" where
  "AliasMap_set key val s =
     (case precon_defined key of
        Inl e \<Rightarrow> (Inl e, s)
      | Inr _ \<Rightarrow>
     (case precon_string (get_prop key ''name'') of
        Inl e \<Rightarrow> (Inl e, s)
      | Inr name \<Rightarrow>
     (case precon_arrayOf_string (get_prop key ''aliasArr'') of
        Inl e \<Rightarrow> (Inl e, s)
      | Inr aliasArr \<Rightarrow>
          let val' = (if typeof val = ''undefined'' then key else val);
              m1 = Map_set name val' (priv_map s);
              ns = Set_add name (priv_nameSet s);
              m2 = foldl (\<lambda>m aliasName. Map_set aliasName val' m) m1 aliasArr
          in (Inr (), \<lparr>priv_map = m2, priv_nameSet = ns\<rparr>))))"

definition AliasMap_delete :: "jsval \<Rightarrow> bool call" where
  "AliasMap_delete key s =
     (case precon_defined key of
        Inl e \<Rightarrow> (Inl e, s)
      | Inr _ \<Rightarrow>
     (case precon_string (get_prop key ''name'') of
        Inl e \<Rightarrow> (Inl e, s)
      | Inr name \<Rightarrow>
     (case precon_arrayOf_string (get_prop key ''aliasArr'') of
        Inl e \<Rightarrow> (Inl e, s)
      | Inr aliasArr \<Rightarrow>
          let (isDeleted, m1) = Map_delete name (priv_map s);
              ns = Set_delete name (priv_nameSet s);
              m2 = foldl (\<lambda>m aliasName. snd (Map_delete aliasName m)) m1 aliasArr
          in (Inr isDeleted, \<lparr>priv_map = m2, priv_nameSet = ns\<rparr>))))"

definition AliasMap_clear :: "unit call" where
  "AliasMap_clear s = (Inr (), \<lparr>priv_map = Map.empty, priv_nameSet = []\<rparr>)"

text \<open>
  \<open>forEach\<close> calls \<open>iteratorFn(value, i, container)\<close> for each primary name. The model
  returns the calls it makes, in order, as pairs of value and index; the callback is taken
  not to change the container while the loop runs.
\<close>

fun forEach_loop :: "jsmap \<Rightarrow> string list \<Rightarrow> nat \<Rightarrow> (jsval \<times> nat) list" where
  "forEach_loop m [] i = []"
| "forEach_loop m (name # rest) i = (Map_get m name, i) # forEach_loop m rest (i + 1)"

definition AliasMap_forEach :: "jsval \<Rightarrow> (jsval \<times> nat) list call" where
  "AliasMap_forEach iteratorFn s =
     (case precon_funct iteratorFn of
        Inl e \<Rightarrow> (Inl e, s)
      | Inr _ \<Rightarrow> (Inr (forEach_loop (priv_map s) (priv_nameSet s) 0), s))"

text \<open>\<open>keys()\<close> is a fresh iterator of the name set.\<close>

definition AliasMap_keys :: "AliasMap \<Rightarrow> string list" where
  "AliasMap_keys s = priv_nameSet s"

text \<open>
  \<open>values()\<close> and default iteration take a fresh iterator of the name set; their \<open>next\<close>
  advances it and looks the name up in the container as it is then. Every iterator
  obtained from one result of \<open>values()\<close> advances the one name iterator taken by that
  call.
\<close>

definition AliasMap_values :: "AliasMap \<Rightarrow> string list" where
  "AliasMap_values s = priv_nameSet s"

definition values_next :: "AliasMap \<Rightarrow> string list \<Rightarrow> jsval iter_result \<times> string list" where
  "values_next s nameIterator =
     (case Set_iter_next nameIterator of
        (Done, it) \<Rightarrow> (Done, it)
      | (Yield name, it) \<Rightarrow> (Yield (Map_get (priv_map s) name), it))"

definition AliasMap_iterator :: "AliasMap \<Rightarrow> string list" where
  "AliasMap_iterator s = priv_nameSet s"

definition iterator_next ::
  "AliasMap \<Rightarrow> string list \<Rightarrow> (string \<times> jsval) iter_result \<times> string list" where
  "iterator_next s nameIterator =
     (case Set_iter_next nameIterator of
        (Done, it) \<Rightarrow> (Done, it)
      | (Yield name, it) \<Rightarrow> (Yield (name, Map_get (priv_map s) name), it))"

text \<open>
  Consuming an iterator to its end (spread, \<open>for ... of\<close>), with a bound on the number of
  calls of \<open>next\<close>: \<open>None\<close> when the bound is reached before the iterator is done.
\<close>

fun drain :: "nat \<Rightarrow> ('i \<Rightarrow> 'a iter_result \<times> 'i) \<Rightarrow> 'i \<Rightarrow> 'a list option" where
  "drain 0 nxt it = None"
| "drain (Suc fuel) nxt it =
     (case nxt it of
        (Done, it') \<Rightarrow> Some []
      | (Yield v, it') \<Rightarrow> map_option ((#) v) (drain fuel nxt it'))"

text \<open>
  The call \<open>set(...)\<close> with the given arguments: \<open>key\<close> and \<open>value\<close> are bound to the
  first two of them.
\<close>

definition AliasMap_set_call :: "jsval list \<Rightarrow> unit call" where
  "AliasMap_set_call args = AliasMap_set (js_arg args 0) (js_arg args 1)"

section \<open>Keys, operations and entries as the specification speaks of them\<close>

text \<open>
  A valid key object: its \<open>name\<close> is the string \<open>n\<close> and its \<open>aliasArr\<close> is the array of
  the strings \<open>as\<close>.
\<close>

definition valid_key :: "jsval \<Rightarrow> string \<Rightarrow> string list \<Rightarrow> bool" where
  "valid_key k n as \<longleftrightarrow>
     get_prop k ''name'' = JStr n \<and> get_prop k ''aliasArr'' = JArr (map JStr as)"

fun is_string :: "jsval \<Rightarrow> bool" where
  "is_string (JStr s) = True"
| "is_string v = False"

fun is_array_of_strings :: "jsval \<Rightarrow> bool" where
  "is_array_of_strings (JArr vs) = list_all is_string vs"
| "is_array_of_strings v = False"

text \<open>A key argument that is not malformed, as a test on the value.\<close>

definition well_formed_key :: "jsval \<Rightarrow> bool" where
  "well_formed_key k \<longleftrightarrow>
     k \<noteq> JUndefined \<and> k \<noteq> JNull \<and> is_string (get_prop k ''name'')
     \<and> is_array_of_strings (get_prop k ''aliasArr'')"

fun string_of :: "jsval \<Rightarrow> string" where
  "string_of (JStr s) = s"
| "string_of v = []"

definition key_name :: "jsval \<Rightarrow> string" where
  "key_name k = string_of (get_prop k ''name'')"

definition key_aliases :: "jsval \<Rightarrow> string list" where
  "key_aliases k = (case get_prop k ''aliasArr'' of JArr vs \<Rightarrow> map string_of vs | _ \<Rightarrow> [])"

text \<open>The value an entry stores: the key itself when the value is undefined.\<close>

definition stored_value :: "jsval \<Rightarrow> jsval \<Rightarrow> jsval" where
  "stored_value k v = (if v = JUndefined then k else v)"

text \<open>Sequences of mutating calls, run on a new container.\<close>

datatype op = OpSet jsval jsval | OpDelete jsval | OpClear

fun apply_op :: "op \<Rightarrow> AliasMap \<Rightarrow> AliasMap" where
  "apply_op (OpSet k v) s = snd (AliasMap_set k v s)"
| "apply_op (OpDelete k) s = snd (AliasMap_delete k s)"
| "apply_op OpClear s = snd (AliasMap_clear s)"

definition run_from :: "AliasMap \<Rightarrow> op list \<Rightarrow> AliasMap" where
  "run_from s ops = foldl (\<lambda>s' c. apply_op c s') s ops"

definition run :: "op list \<Rightarrow> AliasMap" where
  "run ops = run_from constructor ops"

fun valid_op :: "op \<Rightarrow> bool" where
  "valid_op (OpSet k v) = well_formed_key k"
| "valid_op (OpDelete k) = well_formed_key k"
| "valid_op OpClear = True"

text \<open>
  The entries of the data model, by primary name: an insertion creates or updates the
  entry of its primary name, a deletion removes it, a clear removes all.
\<close>

fun entries_step :: "op \<Rightarrow> (string \<rightharpoonup> jsval) \<Rightarrow> (string \<rightharpoonup> jsval)" where
  "entries_step (OpSet k v) e =
     (if well_formed_key k then e(key_name k \<mapsto> stored_value k v) else e)"
| "entries_step (OpDelete k) e = (if well_formed_key k then e(key_name k := None) else e)"
| "entries_step OpClear e = Map.empty"

definition entries_from :: "(string \<rightharpoonup> jsval) \<Rightarrow> op list \<Rightarrow> (string \<rightharpoonup> jsval)" where
  "entries_from e ops = foldl (\<lambda>e' c. entries_step c e') e ops"

definition entries :: "op list \<Rightarrow> (string \<rightharpoonup> jsval)" where
  "entries ops = entries_from Map.empty ops"

text \<open>
  An operation collides when one of the aliases it lists is, at that time, the stored
  primary name of another entry.
\<close>

fun no_collision :: "AliasMap \<Rightarrow> op \<Rightarrow> bool" where
  "no_collision s (OpSet k v) =
     (\<forall>a \<in> set (key_aliases k). a \<in> set (priv_nameSet s) \<longrightarrow> a = key_name k)"
| "no_collision s (OpDelete k) =
     (\<forall>a \<in> set (key_aliases k). a \<in> set (priv_nameSet s) \<longrightarrow> a = key_name k)"
| "no_collision s OpClear = True"

fun collision_free :: "AliasMap \<Rightarrow> op list \<Rightarrow> bool" where
  "collision_free s [] = True"
| "collision_free s (c # cs) = (no_collision s c \<and> collision_free (apply_op c s) cs)"

text \<open>
  The time of insertion of each stored primary name: the position, in the sequence of
  calls, of the insertion that created its entry.
\<close>

fun ins_step :: "nat \<Rightarrow> op \<Rightarrow> (string \<rightharpoonup> nat) \<Rightarrow> (string \<rightharpoonup> nat)" where
  "ins_step i (OpSet k v) t =
     (if well_formed_key k \<and> t (key_name k) = None then t(key_name k \<mapsto> i) else t)"
| "ins_step i (OpDelete k) t = (if well_formed_key k then t(key_name k := None) else t)"
| "ins_step i OpClear t = Map.empty"

fun ins_times :: "nat \<Rightarrow> (string \<rightharpoonup> nat) \<Rightarrow> op list \<Rightarrow> (string \<rightharpoonup> nat)" where
  "ins_times i t [] = t"
| "ins_times i t (c # cs) = ins_times (Suc i) (ins_step i c t) cs"

definition insertion_time :: "op list \<Rightarrow> (string \<rightharpoonup> nat)" where
  "insertion_time ops = ins_times 0 Map.empty ops"

definition inserted_before :: "(string \<rightharpoonup> nat) \<Rightarrow> string \<Rightarrow> string \<Rightarrow> bool" where
  "inserted_before t a b =
     (case t a of None \<Rightarrow> False
      | Some i \<Rightarrow> (case t b of None \<Rightarrow> False | Some j \<Rightarrow> i < j))"

text \<open>The object literal \<open>{name: n, aliasArr: as}\<close>.\<close>

definition key_obj :: "string \<Rightarrow> string list \<Rightarrow> jsval" where
  "key_obj n as = JObj [(''name'', JStr n), (''aliasArr'', JArr (map JStr as))]"

text \<open>
  The scenario of the specification: insert red (with aliases, no value), insert blue with
  42, delete red.
\<close>

definition scenario :: "op list" where
  "scenario =
     [OpSet (key_obj ''red'' [''r'', ''crimson'']) JUndefined,
      OpSet (key_obj ''blue'' []) (JNum 42),
      OpDelete (key_obj ''red'' [''r'', ''crimson''])]"

text \<open>
  A deletion that lists the primary name of another entry as an alias: insert a, then
  delete b with alias a.
\<close>

definition dangling :: "op list" where
  "dangling = [OpSet (key_obj ''a'' []) (JNum 1), OpDelete (key_obj ''b'' [''a''])]"

section \<open>Basic facts\<close>

lemma strings_of_map_JStr: "strings_of (map JStr as) = Inr as"
  by (induction as) simp_all

lemma strings_of_Inr: "strings_of vs = Inr ss \<Longrightarrow> vs = map JStr ss"
proof (induction vs arbitrary: ss rule: strings_of.induct)
  case 1
  then show ?case by simp
next
  case (2 s vs)
  then show ?case by (auto split: sum.splits)
qed simp_all

lemma strings_of_Inl_iff: "(\<exists>e. strings_of vs = Inl e) \<longleftrightarrow> \<not> list_all is_string vs"
  by (induction vs rule: strings_of.induct) (auto split: sum.splits)

lemma valid_key_defined: "valid_key k n as \<Longrightarrow> precon_defined k = Inr ()"
  by (cases k) (simp_all add: valid_key_def)

lemma valid_key_well_formed: "valid_key k n as \<Longrightarrow> well_formed_key k"
  by (cases k) (auto simp: valid_key_def well_formed_key_def list_all_iff)

lemma valid_key_name: "valid_key k n as \<Longrightarrow> key_name k = n"
  by (simp add: valid_key_def key_name_def)

lemma valid_key_aliases: "valid_key k n as \<Longrightarrow> key_aliases k = as"
  by (simp add: valid_key_def key_aliases_def comp_def)

lemma is_string_iff: "is_string v \<longleftrightarrow> (\<exists>s. v = JStr s)"
  by (cases v) simp_all

lemma list_all_is_string: "list_all is_string vs \<Longrightarrow> vs = map JStr (map string_of vs)"
  by (induction vs) (auto simp: is_string_iff)

lemma well_formed_key_valid:
  "well_formed_key k \<Longrightarrow> valid_key k (key_name k) (key_aliases k)"
proof -
  assume wf: "well_formed_key k"
  then obtain n where n: "get_prop k ''name'' = JStr n"
    by (auto simp: well_formed_key_def is_string_iff)
  from wf obtain vs where vs: "get_prop k ''aliasArr'' = JArr vs" "list_all is_string vs"
    by (cases "get_prop k ''aliasArr''") (auto simp: well_formed_key_def)
  from vs(2) have "vs = map JStr (map string_of vs)" by (rule list_all_is_string)
  with n vs(1) show ?thesis
    by (simp add: valid_key_def key_name_def key_aliases_def)
qed

lemma well_formed_key_iff: "well_formed_key k \<longleftrightarrow> (\<exists>n as. valid_key k n as)"
  using valid_key_well_formed well_formed_key_valid by blast

lemma foldl_Map_set:
  "foldl (\<lambda>m a. Map_set a v m) m as x = (if x \<in> set as then Some v else m x)"
  by (induction as arbitrary: m) (auto simp: Map_set_def)

lemma foldl_remove:
  "foldl (\<lambda>m a. m(a := None)) (m :: jsmap) as x = (if x \<in> set as then None else m x)"
  by (induction as arbitrary: m) auto

lemma foldl_Map_delete:
  "foldl (\<lambda>m a. snd (Map_delete a m)) m as x = (if x \<in> set as then None else m x)"
  by (simp add: Map_delete_def foldl_remove)

text \<open>What \<open>set\<close> and \<open>delete\<close> do with a valid key.\<close>

lemma set_valid:
  assumes "valid_key k n as"
  shows "AliasMap_set k v s =
    (Inr (),
     \<lparr>priv_map = (\<lambda>x. if x = n \<or> x \<in> set as then Some (stored_value k v) else priv_map s x),
      priv_nameSet = Set_add n (priv_nameSet s)\<rparr>)"
proof -
  have d: "precon_defined k = Inr ()" using assms by (rule valid_key_defined)
  have u: "(if typeof v = ''undefined'' then k else v) = stored_value k v"
    by (cases v) (simp_all add: stored_value_def)
  have m: "foldl (\<lambda>m a. Map_set a w m) (Map_set n w (priv_map s)) as =
      (\<lambda>x. if x = n \<or> x \<in> set as then Some w else priv_map s x)" for w
    unfolding foldl_Map_set fun_eq_iff by (simp add: Map_set_def)
  show ?thesis
    using assms d
    by (simp add: AliasMap_set_def valid_key_def strings_of_map_JStr u m Let_def)
qed

lemma delete_valid:
  assumes "valid_key k n as"
  shows "AliasMap_delete k s =
    (Inr (Map_has (priv_map s) n),
     \<lparr>priv_map = (\<lambda>x. if x = n \<or> x \<in> set as then None else priv_map s x),
      priv_nameSet = Set_delete n (priv_nameSet s)\<rparr>)"
proof -
  have d: "precon_defined k = Inr ()" using assms by (rule valid_key_defined)
  have m: "foldl (\<lambda>m a. m(a := None)) ((priv_map s)(n := None)) as =
      (\<lambda>x. if x = n \<or> x \<in> set as then None else priv_map s x)"
    by (rule ext) (simp add: foldl_remove)
  show ?thesis
    using assms d
    by (simp add: AliasMap_delete_def valid_key_def strings_of_map_JStr Map_delete_def
        Map_has_def m Let_def)
qed

lemma set_malformed:
  assumes "\<not> well_formed_key k"
  shows "AliasMap_set k v s = (Inl InvalidArgument, s)"
proof (cases "precon_defined k")
  case (Inl e)
  then show ?thesis by (cases e) (simp add: AliasMap_set_def)
next
  case (Inr u)
  then have k: "k \<noteq> JUndefined" "k \<noteq> JNull" by auto
  show ?thesis
  proof (cases "precon_string (get_prop k ''name'')")
    case (Inl e)
    with Inr show ?thesis by (cases e) (simp add: AliasMap_set_def)
  next
    case (Inr name)
    then have "is_string (get_prop k ''name'')"
      by (cases "get_prop k ''name''") simp_all
    with assms k have na: "\<not> is_array_of_strings (get_prop k ''aliasArr'')"
      by (simp add: well_formed_key_def)
    have "\<exists>e. precon_arrayOf_string (get_prop k ''aliasArr'') = Inl e"
      using na strings_of_Inl_iff by (cases "get_prop k ''aliasArr''") simp_all
    then obtain e where "precon_arrayOf_string (get_prop k ''aliasArr'') = Inl e" ..
    with Inr \<open>precon_defined k = Inr u\<close> show ?thesis
      by (cases e) (simp add: AliasMap_set_def)
  qed
qed

lemma delete_malformed:
  assumes "\<not> well_formed_key k"
  shows "AliasMap_delete k s = (Inl InvalidArgument, s)"
proof (cases "precon_defined k")
  case (Inl e)
  then show ?thesis by (cases e) (simp add: AliasMap_delete_def)
next
  case (Inr u)
  then have k: "k \<noteq> JUndefined" "k \<noteq> JNull" by auto
  show ?thesis
  proof (cases "precon_string (get_prop k ''name'')")
    case (Inl e)
    with Inr show ?thesis by (cases e) (simp add: AliasMap_delete_def)
  next
    case (Inr name)
    then have "is_string (get_prop k ''name'')"
      by (cases "get_prop k ''name''") simp_all
    with assms k have na: "\<not> is_array_of_strings (get_prop k ''aliasArr'')"
      by (simp add: well_formed_key_def)
    have "\<exists>e. precon_arrayOf_string (get_prop k ''aliasArr'') = Inl e"
      using na strings_of_Inl_iff by (cases "get_prop k ''aliasArr''") simp_all
    then obtain e where "precon_arrayOf_string (get_prop k ''aliasArr'') = Inl e" ..
    with Inr \<open>precon_defined k = Inr u\<close> show ?thesis
      by (cases e) (simp add: AliasMap_delete_def)
  qed
qed

lemma valid_key_obj: "valid_key (key_obj n as) n as"
  by (simp add: valid_key_def key_obj_def)

lemma well_formed_key_obj: "well_formed_key (key_obj n as)"
  using valid_key_obj by (rule valid_key_well_formed)

lemma key_name_obj: "key_name (key_obj n as) = n"
  using valid_key_obj by (rule valid_key_name)

lemma key_aliases_obj: "key_aliases (key_obj n as) = as"
  using valid_key_obj by (rule valid_key_aliases)

lemma has_string: "AliasMap_has (JStr n) s = (Inr (priv_map s n \<noteq> None), s)"
  by (simp add: AliasMap_has_def Map_has_def)

lemma get_string: "AliasMap_get (JStr n) s = (Inr (Map_get (priv_map s) n), s)"
  by (simp add: AliasMap_get_def)

lemma run_from_Nil: "run_from s [] = s"
  by (simp add: run_from_def)

lemma run_from_Cons: "run_from s (c # cs) = run_from (apply_op c s) cs"
  by (simp add: run_from_def)

lemma entries_from_Nil: "entries_from e [] = e"
  by (simp add: entries_from_def)

lemma entries_from_Cons: "entries_from e (c # cs) = entries_from (entries_step c e) cs"
  by (simp add: entries_from_def)

lemma apply_op_set:
  "well_formed_key k \<Longrightarrow> apply_op (OpSet k v) s =
     \<lparr>priv_map = (\<lambda>x. if x = key_name k \<or> x \<in> set (key_aliases k)
                       then Some (stored_value k v) else priv_map s x),
      priv_nameSet = Set_add (key_name k) (priv_nameSet s)\<rparr>"
  by (simp add: set_valid [OF well_formed_key_valid])


lemma apply_op_delete:
  "well_formed_key k \<Longrightarrow> apply_op (OpDelete k) s =
     \<lparr>priv_map = (\<lambda>x. if x = key_name k \<or> x \<in> set (key_aliases k)
                       then None else priv_map s x),
      priv_nameSet = Set_delete (key_name k) (priv_nameSet s)\<rparr>"
  by (simp add: delete_valid [OF well_formed_key_valid])

lemma apply_op_set_malformed: "\<not> well_formed_key k \<Longrightarrow> apply_op (OpSet k v) s = s"
  by (simp add: set_malformed)

lemma apply_op_delete_malformed: "\<not> well_formed_key k \<Longrightarrow> apply_op (OpDelete k) s = s"
  by (simp add: delete_malformed)

lemma apply_op_clear: "apply_op OpClear s = \<lparr>priv_map = Map.empty, priv_nameSet = []\<rparr>"
  by (simp add: AliasMap_clear_def)

lemmas apply_op_eqs =
  apply_op_set apply_op_delete apply_op_set_malformed apply_op_delete_malformed apply_op_clear

declare apply_op.simps [simp del]

section \<open>The name set and the entries\<close>

lemma apply_op_names:
  assumes "set (priv_nameSet s) = dom e"
  shows "set (priv_nameSet (apply_op c s)) = dom (entries_step c e)"
proof (cases c)
  case (OpSet k v)
  with assms show ?thesis
    by (cases "well_formed_key k") (auto simp: apply_op_eqs Set_add_def)
next
  case (OpDelete k)
  with assms show ?thesis
    by (cases "well_formed_key k") (auto simp: apply_op_eqs Set_delete_def)
next
  case OpClear
  then show ?thesis by (simp add: apply_op_eqs)
qed

lemma apply_op_distinct:
  assumes "distinct (priv_nameSet s)"
  shows "distinct (priv_nameSet (apply_op c s))"
proof (cases c)
  case (OpSet k v)
  with assms show ?thesis
    by (cases "well_formed_key k") (auto simp: apply_op_eqs Set_add_def)
next
  case (OpDelete k)
  with assms show ?thesis
    by (cases "well_formed_key k") (auto simp: apply_op_eqs Set_delete_def distinct_removeAll)
next
  case OpClear
  then show ?thesis by (simp add: apply_op_eqs)
qed

lemma apply_op_values:
  assumes nc: "no_collision s c"
    and names: "set (priv_nameSet s) = dom e"
    and vals: "\<forall>n \<in> dom e. priv_map s n = e n"
  shows "\<forall>n \<in> dom (entries_step c e). priv_map (apply_op c s) n = entries_step c e n"
proof (cases c)
  case (OpSet k v)
  show ?thesis
  proof (cases "well_formed_key k")
    case True
    show ?thesis
    proof
      fix n assume n: "n \<in> dom (entries_step c e)"
      show "priv_map (apply_op c s) n = entries_step c e n"
      proof (cases "n = key_name k")
        case True
        with OpSet \<open>well_formed_key k\<close> show ?thesis by (simp add: apply_op_eqs)
      next
        case False
        with n OpSet \<open>well_formed_key k\<close> have d: "n \<in> dom e" by (auto split: if_splits)
        with names have "n \<in> set (priv_nameSet s)" by simp
        with nc OpSet False have "n \<notin> set (key_aliases k)" by auto
        with False d vals OpSet \<open>well_formed_key k\<close> show ?thesis
          by (simp add: apply_op_eqs)
      qed
    qed
  next
    case False
    with OpSet vals show ?thesis by (simp add: apply_op_eqs)
  qed
next
  case (OpDelete k)
  show ?thesis
  proof (cases "well_formed_key k")
    case True
    show ?thesis
    proof
      fix n assume n: "n \<in> dom (entries_step c e)"
      with OpDelete True have ne: "n \<noteq> key_name k" and d: "n \<in> dom e"
        by (auto split: if_splits)
      from d names have "n \<in> set (priv_nameSet s)" by simp
      with nc OpDelete ne have "n \<notin> set (key_aliases k)" by auto
      with ne d vals OpDelete True show "priv_map (apply_op c s) n = entries_step c e n"
        by (simp add: apply_op_eqs)
    qed
  next
    case False
    with OpDelete vals show ?thesis by (simp add: apply_op_eqs)
  qed
next
  case OpClear
  then show ?thesis by simp
qed

lemma run_from_names:
  "set (priv_nameSet s) = dom e \<Longrightarrow>
   set (priv_nameSet (run_from s ops)) = dom (entries_from e ops)"
proof (induction ops arbitrary: s e)
  case Nil
  then show ?case by (simp add: run_from_Nil entries_from_Nil)
next
  case (Cons c cs)
  from Cons.prems have "set (priv_nameSet (apply_op c s)) = dom (entries_step c e)"
    by (rule apply_op_names)
  then show ?case
    unfolding run_from_Cons entries_from_Cons by (rule Cons.IH)
qed

lemma run_from_distinct:
  "distinct (priv_nameSet s) \<Longrightarrow> distinct (priv_nameSet (run_from s ops))"
proof (induction ops arbitrary: s)
  case Nil
  then show ?case by (simp add: run_from_Nil)
next
  case (Cons c cs)
  from Cons.prems have "distinct (priv_nameSet (apply_op c s))" by (rule apply_op_distinct)
  then show ?case unfolding run_from_Cons by (rule Cons.IH)
qed

lemma run_from_values:
  assumes "collision_free s ops"
    and "set (priv_nameSet s) = dom e"
    and "\<forall>n \<in> dom e. priv_map s n = e n"
  shows "\<forall>n \<in> dom (entries_from e ops). priv_map (run_from s ops) n = entries_from e ops n"
  using assms
proof (induction ops arbitrary: s e)
  case Nil
  then show ?case by (simp add: run_from_Nil entries_from_Nil)
next
  case (Cons c cs)
  from Cons.prems(1) have nc: "no_collision s c" and cf: "collision_free (apply_op c s) cs"
    by simp_all
  have names: "set (priv_nameSet (apply_op c s)) = dom (entries_step c e)"
    using Cons.prems(2) by (rule apply_op_names)
  have vals: "\<forall>n \<in> dom (entries_step c e). priv_map (apply_op c s) n = entries_step c e n"
    using nc Cons.prems(2,3) by (rule apply_op_values)
  show ?case
    unfolding run_from_Cons entries_from_Cons using cf names vals by (rule Cons.IH)
qed

section \<open>The name set and the times of insertion\<close>

lemma sorted_wrt_cong_on:
  assumes "sorted_wrt P xs"
    and "\<And>x y. x \<in> set xs \<Longrightarrow> y \<in> set xs \<Longrightarrow> P x y \<Longrightarrow> Q x y"
  shows "sorted_wrt Q xs"
  using assms by (induction xs) auto

lemma ins_step_inv:
  assumes names: "set (priv_nameSet s) = dom t"
    and sorted: "sorted_wrt (inserted_before t) (priv_nameSet s)"
    and bound: "\<forall>n j. t n = Some j \<longrightarrow> j < i"
  shows "set (priv_nameSet (apply_op c s)) = dom (ins_step i c t)
    \<and> sorted_wrt (inserted_before (ins_step i c t)) (priv_nameSet (apply_op c s))
    \<and> (\<forall>n j. ins_step i c t n = Some j \<longrightarrow> j < Suc i)"
proof (cases c)
  case (OpSet k v)
  show ?thesis
  proof (cases "well_formed_key k \<and> t (key_name k) = None")
    case True
    then have wf: "well_formed_key k" and new: "t (key_name k) = None" by simp_all
    from new names have notin: "key_name k \<notin> set (priv_nameSet s)" by auto
    let ?t = "t(key_name k \<mapsto> i)"
    have step: "ins_step i c t = ?t" using OpSet True by simp
    have ns: "priv_nameSet (apply_op c s) = priv_nameSet s @ [key_name k]"
      using OpSet wf notin by (simp add: apply_op_eqs Set_add_def)
    have old: "sorted_wrt (inserted_before ?t) (priv_nameSet s)"
      using sorted
    proof (rule sorted_wrt_cong_on)
      fix x y assume "x \<in> set (priv_nameSet s)" "y \<in> set (priv_nameSet s)"
        "inserted_before t x y"
      with notin show "inserted_before ?t x y"
        by (auto simp: inserted_before_def split: option.splits)
    qed
    have last: "\<forall>x \<in> set (priv_nameSet s). inserted_before ?t x (key_name k)"
    proof
      fix x assume x: "x \<in> set (priv_nameSet s)"
      with names obtain j where j: "t x = Some j" by auto
      with bound have "j < i" by simp
      with j x notin show "inserted_before ?t x (key_name k)"
        by (auto simp: inserted_before_def)
    qed
    have "sorted_wrt (inserted_before ?t) (priv_nameSet s @ [key_name k])"
      using old last by (simp add: sorted_wrt_append)
    moreover have "set (priv_nameSet s @ [key_name k]) = dom ?t"
      using names by auto
    moreover have "\<forall>n j. ?t n = Some j \<longrightarrow> j < Suc i"
      using bound by (auto simp: less_Suc_eq)
    ultimately show ?thesis unfolding step ns by simp
  next
    case False
    then have step: "ins_step i c t = t" using OpSet by auto
    have ns: "priv_nameSet (apply_op c s) = priv_nameSet s"
    proof (cases "well_formed_key k")
      case True
      with False obtain j where "t (key_name k) = Some j" by auto
      with names have "key_name k \<in> set (priv_nameSet s)" by auto
      with True OpSet show ?thesis by (simp add: apply_op_eqs Set_add_def)
    next
      case False
      with OpSet show ?thesis by (simp add: apply_op_eqs)
    qed
    show ?thesis unfolding step ns using names sorted bound by (auto simp: less_Suc_eq)
  qed
next
  case (OpDelete k)
  show ?thesis
  proof (cases "well_formed_key k")
    case True
    let ?t = "t(key_name k := None)"
    have step: "ins_step i c t = ?t" using OpDelete True by simp
    have ns: "priv_nameSet (apply_op c s) = removeAll (key_name k) (priv_nameSet s)"
      using OpDelete True by (simp add: apply_op_eqs Set_delete_def)
    have "sorted_wrt (inserted_before t) (removeAll (key_name k) (priv_nameSet s))"
      using sorted by (simp add: removeAll_filter_not_eq sorted_wrt_filter)
    then have "sorted_wrt (inserted_before ?t) (removeAll (key_name k) (priv_nameSet s))"
    proof (rule sorted_wrt_cong_on)
      fix x y
      assume "x \<in> set (removeAll (key_name k) (priv_nameSet s))"
        "y \<in> set (removeAll (key_name k) (priv_nameSet s))" "inserted_before t x y"
      then show "inserted_before ?t x y"
        by (auto simp: inserted_before_def split: option.splits)
    qed
    moreover have "set (removeAll (key_name k) (priv_nameSet s)) = dom ?t"
      using names by auto
    moreover have "\<forall>n j. ?t n = Some j \<longrightarrow> j < Suc i"
      using bound by (auto simp: less_Suc_eq split: if_splits)
    ultimately show ?thesis unfolding step ns by simp
  next
    case False
    with OpDelete names sorted bound show ?thesis
      by (auto simp: apply_op_eqs less_Suc_eq)
  qed
next
  case OpClear
  then show ?thesis by (simp add: apply_op_eqs)
qed

lemma run_from_ins_times:
  assumes "set (priv_nameSet s) = dom t"
    and "sorted_wrt (inserted_before t) (priv_nameSet s)"
    and "\<forall>n j. t n = Some j \<longrightarrow> j < i"
  shows "set (priv_nameSet (run_from s ops)) = dom (ins_times i t ops)
    \<and> sorted_wrt (inserted_before (ins_times i t ops)) (priv_nameSet (run_from s ops))"
  using assms
proof (induction ops arbitrary: s t i)
  case Nil
  then show ?case by (simp add: run_from_Nil)
next
  case (Cons c cs)
  from ins_step_inv [OF Cons.prems, of c]
  have a: "set (priv_nameSet (apply_op c s)) = dom (ins_step i c t)"
    and b: "sorted_wrt (inserted_before (ins_step i c t)) (priv_nameSet (apply_op c s))"
    and c: "\<forall>n j. ins_step i c t n = Some j \<longrightarrow> j < Suc i"
    by simp_all
  from Cons.IH [OF a b c] show ?case by (simp add: run_from_Cons)
qed

section \<open>Iteration\<close>

lemma drain_keys: "length ns < fuel \<Longrightarrow> drain fuel Set_iter_next ns = Some ns"
proof (induction ns arbitrary: fuel)
  case Nil
  then show ?case by (cases fuel) simp_all
next
  case (Cons n ns)
  then show ?case by (cases fuel) simp_all
qed

lemma drain_values:
  "length ns < fuel \<Longrightarrow>
   drain fuel (values_next s) ns = Some (map (Map_get (priv_map s)) ns)"
proof (induction ns arbitrary: fuel)
  case Nil
  then show ?case by (cases fuel) (simp_all add: values_next_def)
next
  case (Cons n ns)
  then show ?case by (cases fuel) (simp_all add: values_next_def)
qed

lemma drain_iterator:
  "length ns < fuel \<Longrightarrow>
   drain fuel (iterator_next s) ns = Some (map (\<lambda>n. (n, Map_get (priv_map s) n)) ns)"
proof (induction ns arbitrary: fuel)
  case Nil
  then show ?case by (cases fuel) (simp_all add: iterator_next_def)
next
  case (Cons n ns)
  then show ?case by (cases fuel) (simp_all add: iterator_next_def)
qed

lemma forEach_loop_zip:
  "forEach_loop m ns i = zip (map (Map_get m) ns) [i ..< i + length ns]"
proof (induction ns arbitrary: i)
  case Nil
  then show ?case by simp
next
  case (Cons n ns)
  have "[i ..< Suc (i + length ns)] = i # [Suc i ..< Suc (i + length ns)]"
    by (rule upt_conv_Cons) simp
  with Cons.IH [of "Suc i"] show ?case by simp
qed

section \<open>Evaluation of concrete calls\<close>

lemmas call_eval =
  set_valid [OF valid_key_obj] delete_valid [OF valid_key_obj] AliasMap_clear_def
  constructor_def Set_add_def Set_delete_def AliasMap_keys_def AliasMap_size_def
  Map_has_def Map_get_def has_string get_string stored_value_def

lemmas run_eval = run_def run_from_def apply_op.simps call_eval

lemma run_scenario:
  "run scenario =
     \<lparr>priv_map = [''blue'' \<mapsto> JNum 42], priv_nameSet = [''blue'']\<rparr>"
  by (simp add: scenario_def run_eval fun_eq_iff)

lemma run_dangling:
  "run dangling = \<lparr>priv_map = Map.empty, priv_nameSet = [''a'']\<rparr>"
  by (simp add: dangling_def run_eval fun_eq_iff)

section \<open>The claims\<close>

text \<open>
  C1, as amended. For a valid key \<open>k\<close>, \<open>delete(k)\<close> returns what \<open>has(k.name)\<close> returned
  before the call: true iff \<open>k.name\<close> was in the flat association, as a primary name or as
  an alias. In a state where \<open>k.name\<close> is a primary name exactly when it is in the flat
  association, this is whether \<open>k.name\<close> was stored as a primary name.
\<close>

theorem delete_returns_flat_presence:
  assumes "valid_key k n as"
  shows "fst (AliasMap_delete k s) = fst (AliasMap_has (JStr n) s)
    \<and> ((n \<in> set (AliasMap_keys s) \<longleftrightarrow> Map_has (priv_map s) n) \<longrightarrow>
         (fst (AliasMap_delete k s) = Inr True \<longleftrightarrow> n \<in> set (AliasMap_keys s)))"
  using assms by (simp add: delete_valid has_string Map_has_def)

theorem delete_returns_flat_presence_witness:
  "valid_key (key_obj ''blue'' []) ''blue'' []
   \<and> (''blue'' \<in> set (AliasMap_keys (run scenario))) = Map_has (priv_map (run scenario)) ''blue''
   \<and> fst (AliasMap_delete (key_obj ''blue'' []) (run scenario)) = Inr True
   \<and> ''blue'' \<in> set (AliasMap_keys (run scenario))"
proof -
  have k: "valid_key (key_obj ''blue'' []) ''blue'' []" by (rule valid_key_obj)
  have a: "(''blue'' \<in> set (AliasMap_keys (run scenario)))
      = Map_has (priv_map (run scenario)) ''blue''"
    and b: "''blue'' \<in> set (AliasMap_keys (run scenario))"
    by (simp_all add: run_scenario AliasMap_keys_def Map_has_def)
  from delete_returns_flat_presence [OF k, of "run scenario"] a b
  have "fst (AliasMap_delete (key_obj ''blue'' []) (run scenario)) = Inr True" by blast
  with k a b show ?thesis by blast
qed

text \<open>
  C1 as stated fails: after inserting a and deleting b with alias a, the name a is still
  in the primary-name set, and deleting a returns false.
\<close>

theorem delete_stored_primary_counterexample:
  "\<not> (fst (AliasMap_delete (key_obj ''a'' []) (run dangling)) = Inr True
       \<longleftrightarrow> ''a'' \<in> set (AliasMap_keys (run dangling)))"
  by (simp add: run_dangling call_eval)

text \<open>
  C2, as amended. After any sequence of valid set, delete and clear calls on a new
  container, the primary-name set holds exactly the primary names of the entries, each
  once, and size is their number, whatever the aliases. When no call of the sequence
  lists as an alias the primary name stored at that time for another entry, every primary
  name is mapped in the flat association to the value of its entry.
\<close>

theorem primary_names_invariant:
  assumes "list_all valid_op ops"
  shows "AliasMap_size (run ops) = card (dom (entries ops))
    \<and> set (AliasMap_keys (run ops)) = dom (entries ops)
    \<and> distinct (AliasMap_keys (run ops))
    \<and> (collision_free constructor ops \<longrightarrow>
         (\<forall>n v. entries ops n = Some v \<longrightarrow>
            AliasMap_has (JStr n) (run ops) = (Inr True, run ops)
            \<and> AliasMap_get (JStr n) (run ops) = (Inr v, run ops)))"
proof -
  have e0: "set (priv_nameSet constructor) = dom (Map.empty :: string \<rightharpoonup> jsval)"
    by (simp add: constructor_def)
  have names: "set (priv_nameSet (run ops)) = dom (entries ops)"
    unfolding run_def entries_def using e0 by (rule run_from_names)
  have dist: "distinct (priv_nameSet (run ops))"
    unfolding run_def by (rule run_from_distinct) (simp add: constructor_def)
  have size: "AliasMap_size (run ops) = card (dom (entries ops))"
    unfolding AliasMap_size_def names [symmetric] using dist by (simp add: distinct_card)
  have vals: "AliasMap_has (JStr n) (run ops) = (Inr True, run ops)
      \<and> AliasMap_get (JStr n) (run ops) = (Inr v, run ops)"
    if cf: "collision_free constructor ops" and n: "entries ops n = Some v" for n v
  proof -
    have "\<forall>n \<in> dom (entries_from Map.empty ops).
        priv_map (run_from constructor ops) n = entries_from Map.empty ops n"
      using cf e0 by (rule run_from_values) simp
    moreover from n have "n \<in> dom (entries_from Map.empty ops)"
      by (auto simp: entries_def)
    ultimately have "priv_map (run ops) n = Some v"
      using n by (simp add: run_def entries_def)
    then show ?thesis by (simp add: has_string get_string Map_get_def)
  qed
  from names dist size vals show ?thesis by (simp add: AliasMap_keys_def)
qed

theorem primary_names_invariant_witness:
  "list_all valid_op scenario
   \<and> collision_free constructor scenario
   \<and> entries scenario ''blue'' = Some (JNum 42)
   \<and> AliasMap_size (run scenario) = card (dom (entries scenario))
   \<and> AliasMap_has (JStr ''blue'') (run scenario) = (Inr True, run scenario)
   \<and> AliasMap_get (JStr ''blue'') (run scenario) = (Inr (JNum 42), run scenario)"
proof -
  have v: "list_all valid_op scenario"
    by (simp add: scenario_def well_formed_key_obj)
  have cf: "collision_free constructor scenario"
    by (simp add: scenario_def key_aliases_obj key_name_obj apply_op.simps call_eval)
  have e: "entries scenario ''blue'' = Some (JNum 42)"
    by (simp add: scenario_def entries_def entries_from_def well_formed_key_obj key_name_obj
        stored_value_def)
  from primary_names_invariant [OF v] cf e v show ?thesis by blast
qed

text \<open>
  C2 as stated fails: the calls of \<open>dangling\<close> are valid, and after them the name a is
  in the primary-name set and not in the flat association.
\<close>

theorem primary_name_unmapped_counterexample:
  "list_all valid_op dangling
   \<and> ''a'' \<in> set (AliasMap_keys (run dangling))
   \<and> AliasMap_has (JStr ''a'') (run dangling) = (Inr False, run dangling)
   \<and> AliasMap_get (JStr ''a'') (run dangling) = (Inr JUndefined, run dangling)"
  by (simp add: run_dangling call_eval) (simp add: dangling_def well_formed_key_obj)

text \<open>
  C3. A name argument of \<open>has\<close> and \<open>get\<close> that is not a string, a key argument of \<open>set\<close>
  and \<open>delete\<close> that is not a defined object with a string name and an array-of-strings
  aliasArr, and an argument of \<open>forEach\<close> that is not a function, make the call throw the
  invalid-argument error and leave the container as it was.
\<close>

theorem malformed_argument_throws_unchanged:
  "(\<not> is_string x \<longrightarrow>
      AliasMap_has x s = (Inl InvalidArgument, s) \<and> AliasMap_get x s = (Inl InvalidArgument, s))
   \<and> (\<not> well_formed_key k \<longrightarrow>
      AliasMap_set k v s = (Inl InvalidArgument, s)
      \<and> AliasMap_delete k s = (Inl InvalidArgument, s))
   \<and> (typeof f \<noteq> ''function'' \<longrightarrow> AliasMap_forEach f s = (Inl InvalidArgument, s))"
proof -
  have "AliasMap_has x s = (Inl InvalidArgument, s) \<and> AliasMap_get x s = (Inl InvalidArgument, s)"
    if "\<not> is_string x"
    using that by (cases x) (simp_all add: AliasMap_has_def AliasMap_get_def)
  moreover have "AliasMap_forEach f s = (Inl InvalidArgument, s)" if "typeof f \<noteq> ''function''"
    using that by (simp add: AliasMap_forEach_def precon_funct_def)
  ultimately show ?thesis
    using set_malformed [of k v s] delete_malformed [of k s] by blast
qed

theorem malformed_argument_throws_unchanged_witness:
  "\<not> is_string (JNum 123)
   \<and> \<not> well_formed_key (JObj [(''name'', JStr ''red''), (''aliasArr'', JArr [JStr ''r'', JNum 7])])
   \<and> typeof (JStr ''callback'') \<noteq> ''function''
   \<and> AliasMap_has (JNum 123) (run scenario) = (Inl InvalidArgument, run scenario)
   \<and> AliasMap_get (JNum 123) (run scenario) = (Inl InvalidArgument, run scenario)
   \<and> AliasMap_set (JObj [(''name'', JStr ''red''), (''aliasArr'', JArr [JStr ''r'', JNum 7])])
        (JNum 1) (run scenario) = (Inl InvalidArgument, run scenario)
   \<and> AliasMap_delete (JObj [(''name'', JStr ''red''), (''aliasArr'', JArr [JStr ''r'', JNum 7])])
        (run scenario) = (Inl InvalidArgument, run scenario)
   \<and> AliasMap_forEach (JStr ''callback'') (run scenario) = (Inl InvalidArgument, run scenario)"
proof -
  have a: "\<not> is_string (JNum 123)" by simp
  have b: "\<not> well_formed_key
      (JObj [(''name'', JStr ''red''), (''aliasArr'', JArr [JStr ''r'', JNum 7])])"
    by (simp add: well_formed_key_def)
  have c: "typeof (JStr ''callback'') \<noteq> ''function''" by simp
  from malformed_argument_throws_unchanged
    [of "JNum 123" "run scenario"
      "JObj [(''name'', JStr ''red''), (''aliasArr'', JArr [JStr ''r'', JNum 7])]"
      "JNum 1" "JStr ''callback''"] a b c
  show ?thesis by blast
qed

text \<open>
  C4, as amended. For a valid key \<open>k\<close> and every value \<open>v\<close>, immediately after
  \<open>set(k, v)\<close>, \<open>has\<close> returns true for \<open>k.name\<close> and for every string of \<open>k.aliasArr\<close>; when
  \<open>v\<close> is not undefined, \<open>get\<close> returns \<open>v\<close> for each of them.
\<close>

theorem set_then_get_and_has:
  assumes "valid_key k n as"
  shows "fst (AliasMap_set k v s) = Inr ()
    \<and> (\<forall>x \<in> insert n (set as).
         AliasMap_has (JStr x) (snd (AliasMap_set k v s)) = (Inr True, snd (AliasMap_set k v s))
         \<and> (v \<noteq> JUndefined \<longrightarrow>
            AliasMap_get (JStr x) (snd (AliasMap_set k v s))
              = (Inr v, snd (AliasMap_set k v s))))"
  using assms by (auto simp: set_valid has_string get_string Map_get_def stored_value_def)

theorem set_then_get_and_has_witness:
  "valid_key (key_obj ''n'' [''a'', ''b'']) ''n'' [''a'', ''b'']
   \<and> JNum 5 \<noteq> JUndefined
   \<and> AliasMap_get (JStr ''n'') (snd (AliasMap_set (key_obj ''n'' [''a'', ''b'']) (JNum 5) constructor))
       = (Inr (JNum 5), snd (AliasMap_set (key_obj ''n'' [''a'', ''b'']) (JNum 5) constructor))
   \<and> AliasMap_get (JStr ''a'') (snd (AliasMap_set (key_obj ''n'' [''a'', ''b'']) (JNum 5) constructor))
       = (Inr (JNum 5), snd (AliasMap_set (key_obj ''n'' [''a'', ''b'']) (JNum 5) constructor))
   \<and> AliasMap_get (JStr ''b'') (snd (AliasMap_set (key_obj ''n'' [''a'', ''b'']) (JNum 5) constructor))
       = (Inr (JNum 5), snd (AliasMap_set (key_obj ''n'' [''a'', ''b'']) (JNum 5) constructor))
   \<and> AliasMap_has (JStr ''n'') (snd (AliasMap_set (key_obj ''n'' [''a'', ''b'']) (JNum 5) constructor))
       = (Inr True, snd (AliasMap_set (key_obj ''n'' [''a'', ''b'']) (JNum 5) constructor))
   \<and> AliasMap_has (JStr ''a'') (snd (AliasMap_set (key_obj ''n'' [''a'', ''b'']) (JNum 5) constructor))
       = (Inr True, snd (AliasMap_set (key_obj ''n'' [''a'', ''b'']) (JNum 5) constructor))
   \<and> AliasMap_has (JStr ''b'') (snd (AliasMap_set (key_obj ''n'' [''a'', ''b'']) (JNum 5) constructor))
       = (Inr True, snd (AliasMap_set (key_obj ''n'' [''a'', ''b'']) (JNum 5) constructor))"
proof -
  have k: "valid_key (key_obj ''n'' [''a'', ''b'']) ''n'' [''a'', ''b'']"
    by (rule valid_key_obj)
  have v: "JNum 5 \<noteq> JUndefined" by simp
  from set_then_get_and_has [OF k, of "JNum 5" constructor] v k
  show ?thesis by simp
qed

text \<open>
  C4 as stated fails at the value undefined: after \<open>set(k, undefined)\<close>, \<open>get(k.name)\<close>
  returns \<open>k\<close>, not undefined.
\<close>

theorem get_after_set_undefined_counterexample:
  "\<not> (AliasMap_get (JStr ''n'')
         (snd (AliasMap_set (key_obj ''n'' [''a'', ''b'']) JUndefined constructor))
       = (Inr JUndefined, snd (AliasMap_set (key_obj ''n'' [''a'', ''b'']) JUndefined constructor)))"
  by (simp add: call_eval) (simp add: key_obj_def)

text \<open>
  C5. In every state, \<open>keys()\<close> produces the primary names in the order of the name set,
  \<open>values()\<close> the value of each of these names in that order, default iteration the pairs
  of name and value in that order, and \<open>forEach\<close> calls the function with these values
  in that order, with the indices from 0. After any sequence of calls on a new container
  this order is the order of insertion: the names are the stored primary names, each
  inserted before the next.
\<close>

theorem iteration_orders_agree:
  assumes "AliasMap_size s < fuel" and "typeof f = ''function''"
  shows "drain fuel Set_iter_next (AliasMap_keys s) = Some (priv_nameSet s)
    \<and> drain fuel (values_next s) (AliasMap_values s)
        = Some (map (Map_get (priv_map s)) (priv_nameSet s))
    \<and> drain fuel (iterator_next s) (AliasMap_iterator s)
        = Some (map (\<lambda>n. (n, Map_get (priv_map s) n)) (priv_nameSet s))
    \<and> AliasMap_forEach f s
        = (Inr (zip (map (Map_get (priv_map s)) (priv_nameSet s)) [0 ..< AliasMap_size s]), s)
    \<and> set (AliasMap_keys (run ops)) = dom (insertion_time ops)
    \<and> sorted_wrt (inserted_before (insertion_time ops)) (AliasMap_keys (run ops))"
proof -
  from assms(1) have len: "length (priv_nameSet s) < fuel"
    by (simp add: AliasMap_size_def)
  have fe: "AliasMap_forEach f s
      = (Inr (zip (map (Map_get (priv_map s)) (priv_nameSet s)) [0 ..< length (priv_nameSet s)]), s)"
    using assms(2) forEach_loop_zip [of "priv_map s" "priv_nameSet s" 0]
    by (simp add: AliasMap_forEach_def precon_funct_def)
  have "set (priv_nameSet constructor) = dom (Map.empty :: string \<rightharpoonup> nat)"
    and "sorted_wrt (inserted_before Map.empty) (priv_nameSet constructor)"
    and "\<forall>n j. (Map.empty :: string \<rightharpoonup> nat) n = Some j \<longrightarrow> j < 0"
    by (simp_all add: constructor_def)
  then have order: "set (priv_nameSet (run_from constructor ops)) = dom (ins_times 0 Map.empty ops)
      \<and> sorted_wrt (inserted_before (ins_times 0 Map.empty ops))
          (priv_nameSet (run_from constructor ops))"
    by (rule run_from_ins_times)
  show ?thesis
    using drain_keys [OF len] drain_values [OF len, of s] drain_iterator [OF len, of s] fe order
    by (simp add: AliasMap_keys_def AliasMap_values_def AliasMap_iterator_def AliasMap_size_def
        run_def insertion_time_def)
qed

theorem iteration_orders_agree_witness:
  "AliasMap_size (run (take 2 scenario)) < 3
   \<and> typeof (JFun ''visit'') = ''function''
   \<and> drain 3 Set_iter_next (AliasMap_keys (run (take 2 scenario))) = Some [''red'', ''blue'']
   \<and> drain 3 (values_next (run (take 2 scenario))) (AliasMap_values (run (take 2 scenario)))
       = Some [key_obj ''red'' [''r'', ''crimson''], JNum 42]
   \<and> drain 3 (iterator_next (run (take 2 scenario))) (AliasMap_iterator (run (take 2 scenario)))
       = Some [(''red'', key_obj ''red'' [''r'', ''crimson'']), (''blue'', JNum 42)]
   \<and> fst (AliasMap_forEach (JFun ''visit'') (run (take 2 scenario)))
       = Inr [(key_obj ''red'' [''r'', ''crimson''], 0), (JNum 42, 1)]
   \<and> sorted_wrt (inserted_before (insertion_time (take 2 scenario)))
        (AliasMap_keys (run (take 2 scenario)))"
proof -
  have st: "run (take 2 scenario) =
      \<lparr>priv_map = [''red'' \<mapsto> key_obj ''red'' [''r'', ''crimson''],
                    ''r'' \<mapsto> key_obj ''red'' [''r'', ''crimson''],
                    ''crimson'' \<mapsto> key_obj ''red'' [''r'', ''crimson''],
                    ''blue'' \<mapsto> JNum 42],
       priv_nameSet = [''red'', ''blue'']\<rparr>"
    by (simp add: scenario_def run_eval fun_eq_iff)
  have a: "AliasMap_size (run (take 2 scenario)) < 3" by (simp add: st AliasMap_size_def)
  have b: "typeof (JFun ''visit'') = ''function''" by simp
  have u: "[0 ..< 2] = [0, Suc 0]" by (simp add: upt_rec)
  from iteration_orders_agree [OF a b, of "take 2 scenario"] a b
  show ?thesis
    by (simp add: st AliasMap_keys_def AliasMap_size_def Map_get_def u)
qed

text \<open>
  C6. When the primary name of a valid key is already stored, \<open>set\<close> with that key leaves
  the iteration order as it was, so the name occurs once, at its position, and size does
  not change.
\<close>

theorem set_again_keeps_order:
  assumes "valid_key k n as" and "n \<in> set (AliasMap_keys s)"
  shows "AliasMap_keys (snd (AliasMap_set k v s)) = AliasMap_keys s
    \<and> AliasMap_size (snd (AliasMap_set k v s)) = AliasMap_size s
    \<and> (distinct (AliasMap_keys s) \<longrightarrow> distinct (AliasMap_keys (snd (AliasMap_set k v s))))"
  using assms by (simp add: set_valid AliasMap_keys_def AliasMap_size_def Set_add_def)

theorem set_again_keeps_order_witness:
  "valid_key (key_obj ''red'' [''scarlet'']) ''red'' [''scarlet'']
   \<and> ''red'' \<in> set (AliasMap_keys (run (take 2 scenario)))
   \<and> distinct (AliasMap_keys (run (take 2 scenario)))
   \<and> AliasMap_keys (snd (AliasMap_set (key_obj ''red'' [''scarlet'']) (JNum 7)
        (run (take 2 scenario)))) = [''red'', ''blue'']
   \<and> AliasMap_size (snd (AliasMap_set (key_obj ''red'' [''scarlet'']) (JNum 7)
        (run (take 2 scenario)))) = 2"
proof -
  have ks: "AliasMap_keys (run (take 2 scenario)) = [''red'', ''blue'']"
    by (simp add: scenario_def run_eval)
  have k: "valid_key (key_obj ''red'' [''scarlet'']) ''red'' [''scarlet'']"
    by (rule valid_key_obj)
  have m: "''red'' \<in> set (AliasMap_keys (run (take 2 scenario)))" by (simp add: ks)
  have sz: "AliasMap_size (run (take 2 scenario)) = 2"
    using ks by (simp add: AliasMap_size_def AliasMap_keys_def)
  from set_again_keeps_order [OF k m, of "JNum 7"] k m show ?thesis
    by (simp add: ks sz)
qed

text \<open>
  C7. After \<open>set\<close> with a valid key, \<open>get\<close> of each of the key's names returns the value
  the new entry stores, whatever that name was associated with before; every primary name
  stored before is still in the primary-name set, at its place, and size is not reduced.
\<close>

theorem set_overwrites_colliding_names:
  assumes "valid_key k n as" and "x \<in> insert n (set as)"
  shows "AliasMap_get (JStr x) (snd (AliasMap_set k v s))
      = (Inr (stored_value k v), snd (AliasMap_set k v s))
    \<and> (AliasMap_keys (snd (AliasMap_set k v s)) = AliasMap_keys s
        \<or> AliasMap_keys (snd (AliasMap_set k v s)) = AliasMap_keys s @ [n])
    \<and> set (AliasMap_keys s) \<subseteq> set (AliasMap_keys (snd (AliasMap_set k v s)))
    \<and> AliasMap_size s \<le> AliasMap_size (snd (AliasMap_set k v s))"
  using assms
  by (auto simp: set_valid get_string Map_get_def AliasMap_keys_def AliasMap_size_def
      Set_add_def)

theorem set_overwrites_colliding_names_witness:
  "valid_key (key_obj ''rose'' [''red'']) ''rose'' [''red'']
   \<and> ''red'' \<in> insert ''rose'' (set [''red''])
   \<and> fst (AliasMap_get (JStr ''red'') (run (take 2 scenario)))
       = Inr (key_obj ''red'' [''r'', ''crimson''])
   \<and> AliasMap_get (JStr ''red'')
        (snd (AliasMap_set (key_obj ''rose'' [''red'']) (JNum 9) (run (take 2 scenario))))
       = (Inr (JNum 9),
          snd (AliasMap_set (key_obj ''rose'' [''red'']) (JNum 9) (run (take 2 scenario))))
   \<and> AliasMap_keys
        (snd (AliasMap_set (key_obj ''rose'' [''red'']) (JNum 9) (run (take 2 scenario))))
       = [''red'', ''blue'', ''rose'']
   \<and> AliasMap_size
        (snd (AliasMap_set (key_obj ''rose'' [''red'']) (JNum 9) (run (take 2 scenario)))) = 3"
proof -
  have k: "valid_key (key_obj ''rose'' [''red'']) ''rose'' [''red'']" by (rule valid_key_obj)
  have x: "''red'' \<in> insert ''rose'' (set [''red''])" by simp
  have old: "fst (AliasMap_get (JStr ''red'') (run (take 2 scenario)))
      = Inr (key_obj ''red'' [''r'', ''crimson''])"
    by (simp add: scenario_def run_eval)
  have ks: "AliasMap_keys
      (snd (AliasMap_set (key_obj ''rose'' [''red'']) (JNum 9) (run (take 2 scenario))))
      = [''red'', ''blue'', ''rose'']"
    by (simp add: scenario_def run_eval)
  have sz: "AliasMap_size
      (snd (AliasMap_set (key_obj ''rose'' [''red'']) (JNum 9) (run (take 2 scenario)))) = 3"
    using ks by (simp add: AliasMap_size_def AliasMap_keys_def)
  from set_overwrites_colliding_names [OF k x, of "JNum 9" "run (take 2 scenario)"]
  have "AliasMap_get (JStr ''red'')
        (snd (AliasMap_set (key_obj ''rose'' [''red'']) (JNum 9) (run (take 2 scenario))))
       = (Inr (JNum 9),
          snd (AliasMap_set (key_obj ''rose'' [''red'']) (JNum 9) (run (take 2 scenario))))"
    by (simp add: stored_value_def)
  with k x old ks sz show ?thesis by simp
qed

text \<open>
  C8. For a valid key \<open>k\<close>, after the call \<open>set(k)\<close> with no value argument, \<open>get\<close> of
  \<open>k.name\<close> and of every string of \<open>k.aliasArr\<close> returns \<open>k\<close>.
\<close>

theorem set_without_value_stores_key:
  assumes "valid_key k n as"
  shows "\<forall>x \<in> insert n (set as).
    AliasMap_get (JStr x) (snd (AliasMap_set_call [k] s))
      = (Inr k, snd (AliasMap_set_call [k] s))"
  using assms
  by (simp add: AliasMap_set_call_def js_arg_def set_valid get_string Map_get_def
      stored_value_def)

theorem set_without_value_stores_key_witness:
  "valid_key (key_obj ''red'' [''r'', ''crimson'']) ''red'' [''r'', ''crimson'']
   \<and> AliasMap_get (JStr ''red'')
        (snd (AliasMap_set_call [key_obj ''red'' [''r'', ''crimson'']] constructor))
       = (Inr (key_obj ''red'' [''r'', ''crimson'']),
          snd (AliasMap_set_call [key_obj ''red'' [''r'', ''crimson'']] constructor))
   \<and> AliasMap_get (JStr ''crimson'')
        (snd (AliasMap_set_call [key_obj ''red'' [''r'', ''crimson'']] constructor))
       = (Inr (key_obj ''red'' [''r'', ''crimson'']),
          snd (AliasMap_set_call [key_obj ''red'' [''r'', ''crimson'']] constructor))"
proof -
  have k: "valid_key (key_obj ''red'' [''r'', ''crimson'']) ''red'' [''r'', ''crimson'']"
    by (rule valid_key_obj)
  from set_without_value_stores_key [OF k, of constructor] k show ?thesis by simp
qed

text \<open>
  C9, as amended. For a valid key \<open>k\<close> whose name is not a stored primary name,
  \<open>delete(k)\<close> returns whether \<open>k.name\<close> was in the flat association (false when it was
  absent, true when it was there as an alias of an entry) and is not a no-op: it removes
  the flat association of \<open>k.name\<close> and of every string of \<open>k.aliasArr\<close>, so that \<open>has\<close>
  returns false for them, and leaves the primary-name set and every other association
  as they were.
\<close>

theorem delete_of_absent_primary:
  assumes "valid_key k n as" and "n \<notin> set (AliasMap_keys s)"
  shows "fst (AliasMap_delete k s) = Inr (Map_has (priv_map s) n)
    \<and> (\<forall>x \<in> insert n (set as).
         AliasMap_has (JStr x) (snd (AliasMap_delete k s))
           = (Inr False, snd (AliasMap_delete k s)))
    \<and> AliasMap_keys (snd (AliasMap_delete k s)) = AliasMap_keys s
    \<and> (\<forall>x. x \<notin> insert n (set as) \<longrightarrow>
         priv_map (snd (AliasMap_delete k s)) x = priv_map s x)"
  using assms
  by (simp add: delete_valid has_string AliasMap_keys_def Set_delete_def)

theorem delete_of_absent_primary_witness:
  "valid_key (key_obj ''rouge'' [''r'', ''crimson'']) ''rouge'' [''r'', ''crimson'']
   \<and> ''rouge'' \<notin> set (AliasMap_keys (run (take 2 scenario)))
   \<and> fst (AliasMap_has (JStr ''crimson'') (run (take 2 scenario))) = Inr True
   \<and> fst (AliasMap_delete (key_obj ''rouge'' [''r'', ''crimson'']) (run (take 2 scenario)))
       = Inr False
   \<and> AliasMap_has (JStr ''crimson'')
        (snd (AliasMap_delete (key_obj ''rouge'' [''r'', ''crimson'']) (run (take 2 scenario))))
       = (Inr False,
          snd (AliasMap_delete (key_obj ''rouge'' [''r'', ''crimson'']) (run (take 2 scenario))))
   \<and> AliasMap_keys
        (snd (AliasMap_delete (key_obj ''rouge'' [''r'', ''crimson'']) (run (take 2 scenario))))
       = [''red'', ''blue'']"
proof -
  have ks: "AliasMap_keys (run (take 2 scenario)) = [''red'', ''blue'']"
    by (simp add: scenario_def run_eval)
  have k: "valid_key (key_obj ''rouge'' [''r'', ''crimson'']) ''rouge'' [''r'', ''crimson'']"
    by (rule valid_key_obj)
  have a: "''rouge'' \<notin> set (AliasMap_keys (run (take 2 scenario)))" by (simp add: ks)
  have h: "fst (AliasMap_has (JStr ''crimson'') (run (take 2 scenario))) = Inr True"
    by (simp add: scenario_def run_eval)
  have m: "Map_has (priv_map (run (take 2 scenario))) ''rouge'' = False"
    by (simp add: scenario_def run_eval)
  from delete_of_absent_primary [OF k a] k a h show ?thesis
    by (simp add: ks m)
qed

text \<open>
  C9 as stated fails: after inserting x with alias y, the name y is not a stored primary
  name, and \<open>delete\<close> of a key named y returns true.
\<close>

theorem delete_of_alias_name_counterexample:
  "''y'' \<notin> set (AliasMap_keys (snd (AliasMap_set (key_obj ''x'' [''y'']) (JNum 1) constructor)))
   \<and> fst (AliasMap_delete (key_obj ''y'' [])
        (snd (AliasMap_set (key_obj ''x'' [''y'']) (JNum 1) constructor))) \<noteq> Inr False"
  by (simp add: call_eval)

text \<open>
  C10. For a valid key \<open>k\<close>, the call \<open>set(k, undefined)\<close> does what the call \<open>set(k)\<close>
  does: \<open>k\<close> itself is stored under \<open>k.name\<close> and under every string of \<open>k.aliasArr\<close>.
\<close>

theorem set_undefined_as_omitted:
  assumes "valid_key k n as"
  shows "AliasMap_set_call [k, JUndefined] s = AliasMap_set_call [k] s
    \<and> (\<forall>x \<in> insert n (set as).
         priv_map (snd (AliasMap_set_call [k, JUndefined] s)) x = Some k)"
  using assms
  by (simp add: AliasMap_set_call_def js_arg_def set_valid stored_value_def)

theorem set_undefined_as_omitted_witness:
  "valid_key (key_obj ''red'' [''r'']) ''red'' [''r'']
   \<and> AliasMap_set_call [key_obj ''red'' [''r''], JUndefined] constructor
       = AliasMap_set_call [key_obj ''red'' [''r'']] constructor
   \<and> priv_map (snd (AliasMap_set_call [key_obj ''red'' [''r''], JUndefined] constructor)) ''red''
       = Some (key_obj ''red'' [''r''])
   \<and> priv_map (snd (AliasMap_set_call [key_obj ''red'' [''r''], JUndefined] constructor)) ''r''
       = Some (key_obj ''red'' [''r''])"
proof -
  have k: "valid_key (key_obj ''red'' [''r'']) ''red'' [''r'']" by (rule valid_key_obj)
  from set_undefined_as_omitted [OF k, of constructor] k show ?thesis by auto
qed

end
